theory Spec2Isabelle
  imports Main
begin

text \<open>
  The script \<open>scripts/format_html.py\<close> rewrites every span \<open><tag attrs>TEXT</tag>\<close>
  whose text holds no markup onto three lines: the open tag, the text with its
  whitespace collapsed, indented, and the close tag. This theory embeds the script
  (the pattern with Python's backtracking order, the replacement function, the
  substitution loop, the command line) and proves the properties that its
  specification states.
\<close>

section \<open>Characters\<close>

text \<open>
  The script works on Python \<open>str\<close> values, sequences of code points. A document is
  modelled as a \<open>string\<close> whose characters are the code points U+0000 to U+00FF
  (\<open>code c\<close> is the code point of \<open>c\<close>); the character classes below are Python's
  Unicode classes restricted to that range.
\<close>

definition code :: "char \<Rightarrow> nat" where
  "code c = of_char c"

text \<open>\<open>\s\<close> in a \<open>str\<close> pattern and the characters removed by \<open>str.strip()\<close>.\<close>

definition is_space :: "char \<Rightarrow> bool" where
  "is_space c = (code c \<in> {9, 10, 11, 12, 13, 28, 29, 30, 31, 32, 133, 160})"

text \<open>\<open>[A-Za-z]\<close>.\<close>

definition is_ascii_letter :: "char \<Rightarrow> bool" where
  "is_ascii_letter c = ((65 \<le> code c \<and> code c \<le> 90) \<or> (97 \<le> code c \<and> code c \<le> 122))"

text \<open>\<open>\w\<close> in a \<open>str\<close> pattern: alphanumeric (\<open>str.isalnum\<close>) or the underscore.\<close>

definition is_word :: "char \<Rightarrow> bool" where
  "is_word c =
     ((48 \<le> code c \<and> code c \<le> 57) \<or> (65 \<le> code c \<and> code c \<le> 90) \<or> code c = 95
      \<or> (97 \<le> code c \<and> code c \<le> 122)
      \<or> code c \<in> {170, 178, 179, 181, 185, 186, 188, 189, 190}
      \<or> (192 \<le> code c \<and> code c \<le> 214) \<or> (216 \<le> code c \<and> code c \<le> 246)
      \<or> 248 \<le> code c)"

text \<open>\<open>[\w:-]\<close>.\<close>

definition is_tagchar :: "char \<Rightarrow> bool" where
  "is_tagchar c = (is_word c \<or> c = CHR '':'' \<or> c = CHR ''-'')"

text \<open>\<open>[^>]\<close> and \<open>[^<]\<close>.\<close>

definition not_gt :: "char \<Rightarrow> bool" where
  "not_gt c = (c \<noteq> CHR ''>'')"

definition not_lt :: "char \<Rightarrow> bool" where
  "not_lt c = (c \<noteq> CHR ''<'')"

text \<open>\<open>str.lower()\<close>: the upper-case letters of the range move up by 32.\<close>

definition lower_char :: "char \<Rightarrow> char" where
  "lower_char c =
     (if (65 \<le> code c \<and> code c \<le> 90) \<or> (192 \<le> code c \<and> code c \<le> 214)
         \<or> (216 \<le> code c \<and> code c \<le> 222)
      then char_of (code c + 32) else c)"

definition lower :: "string \<Rightarrow> string" where
  "lower s = map lower_char s"

section \<open>Settings and classification tables\<close>

definition INDENT :: string where
  "INDENT = ''  ''"

definition COLLAPSE_WHITESPACE :: bool where
  "COLLAPSE_WHITESPACE = True"

definition TRIM_TEXT :: bool where
  "TRIM_TEXT = True"

definition VOID :: "string set" where
  "VOID = {''area'', ''base'', ''br'', ''col'', ''embed'', ''hr'', ''img'', ''input'',
           ''link'', ''meta'', ''param'', ''source'', ''track'', ''wbr''}"

definition EXCLUDED :: "string set" where
  "EXCLUDED = {''script'', ''style'', ''pre'', ''textarea'', ''template'', ''svg'', ''math'',
               ''noscript'', ''code''}"

section \<open>The pattern\<close>

text \<open>
  The compiled pattern is
  \<^verbatim>\<open><([A-Za-z][\w:-]*)\b([^>]*)>\s*([^<][^<]*?)\s*</\1>\<close>
  and Python matches it by backtracking. Each piece of the pattern is a function from
  the text still to be read to the list of its possible outcomes, in the order in
  which the matcher tries them; the pieces are chained with \<open>List.bind\<close>, and the
  match is the first outcome of the chain.
\<close>

text \<open>A literal text.\<close>

definition lit :: "string \<Rightarrow> string \<Rightarrow> string list" where
  "lit w s = (if take (length w) s = w then [drop (length w) s] else [])"

text \<open>One character of a class.\<close>

fun one_of :: "(char \<Rightarrow> bool) \<Rightarrow> string \<Rightarrow> (char \<times> string) list" where
  "one_of P [] = []"
| "one_of P (c # cs) = (if P c then [(c, cs)] else [])"

text \<open>\<open>X*\<close>: as many characters of the class as possible first, then fewer.\<close>

fun greedy :: "(char \<Rightarrow> bool) \<Rightarrow> string \<Rightarrow> (string \<times> string) list" where
  "greedy P [] = [([], [])]"
| "greedy P (c # cs) =
     (if P c then map (\<lambda>(a, r). (c # a, r)) (greedy P cs) else []) @ [([], c # cs)]"

text \<open>\<open>X*?\<close>: as few characters of the class as possible first, then more.\<close>

fun lazy :: "(char \<Rightarrow> bool) \<Rightarrow> string \<Rightarrow> (string \<times> string) list" where
  "lazy P [] = [([], [])]"
| "lazy P (c # cs) =
     ([], c # cs) # (if P c then map (\<lambda>(a, r). (c # a, r)) (lazy P cs) else [])"

text \<open>
  \<open>\b\<close> between the character \<open>prev\<close> just read and the text \<open>s\<close> still to be read:
  exactly one of the two neighbours is a word character (the end of the text is not).
\<close>

definition word_boundary :: "char \<Rightarrow> string \<Rightarrow> bool" where
  "word_boundary prev s = (is_word prev \<noteq> (case s of [] \<Rightarrow> False | c # _ \<Rightarrow> is_word c))"

definition guard :: "bool \<Rightarrow> unit list" where
  "guard b = (if b then [()] else [])"

text \<open>
  A match object: \<open>group0\<close> is the matched text, \<open>group1\<close> to \<open>group3\<close> are the
  captured groups, \<open>after\<close> is the text that follows the match (the text from
  \<open>m.end()\<close> on).
\<close>

record match =
  group0 :: string
  group1 :: string
  group2 :: string
  group3 :: string
  after :: string

definition pattern_matches :: "string \<Rightarrow> match list" where
  "pattern_matches s =
     List.bind (lit ''<'' s) (\<lambda>s1.
     List.bind (one_of is_ascii_letter s1) (\<lambda>(c, s2).
     List.bind (greedy is_tagchar s2) (\<lambda>(t, s3).
     List.bind (guard (word_boundary (last (c # t)) s3)) (\<lambda>_.
     List.bind (greedy not_gt s3) (\<lambda>(attrs, s4).
     List.bind (lit ''>'' s4) (\<lambda>s5.
     List.bind (greedy is_space s5) (\<lambda>(_, s6).
     List.bind (one_of not_lt s6) (\<lambda>(i, s7).
     List.bind (lazy not_lt s7) (\<lambda>(inner, s8).
     List.bind (greedy is_space s8) (\<lambda>(_, s9).
     List.bind (lit (''</'' @ (c # t) @ ''>'') s9) (\<lambda>s10.
       [\<lparr>group0 = take (length s - length s10) s, group1 = c # t, group2 = attrs,
         group3 = i # inner, after = s10\<rparr>])))))))))))"

text \<open>\<open>pattern.match\<close> at the start of \<open>s\<close>: the first outcome, if there is one.\<close>

definition pattern_at :: "string \<Rightarrow> match option" where
  "pattern_at s = (case pattern_matches s of [] \<Rightarrow> None | m # _ \<Rightarrow> Some m)"

section \<open>The transformation\<close>

text \<open>\<open>re.sub(r"\s+", " ", text)\<close>: every maximal run of whitespace becomes one space.\<close>

function collapse :: "string \<Rightarrow> string" where
  "collapse [] = []"
| "collapse (c # cs) =
     (if is_space c then CHR '' '' # collapse (dropWhile is_space cs) else c # collapse cs)"
  by pat_completeness auto
termination
  by (relation "measure length") (auto simp: length_dropWhile_le less_Suc_eq_le)

text \<open>\<open>text.strip()\<close>.\<close>

definition strip :: "string \<Rightarrow> string" where
  "strip s = rev (dropWhile is_space (rev (dropWhile is_space s)))"

definition repl :: "match \<Rightarrow> string" where
  "repl m =
     (let tag = lower (group1 m);
          attrs = (if group2 m \<noteq> [] then group2 m else []);
          inner = group3 m
      in if tag \<in> VOID \<or> tag \<in> EXCLUDED then group0 m
         else
           let text = inner;
               text = (if COLLAPSE_WHITESPACE then collapse text else text);
               text = (if TRIM_TEXT then strip text else text)
           in if text = [] then group0 m
              else
                let open_tag = ''<'' @ tag @ attrs @ ''>'';
                    close_tag = ''</'' @ tag @ ''>''
                in open_tag @ [CHR 0x0A] @ INDENT @ text @ [CHR 0x0A] @ close_tag)"

section \<open>What a match looks like\<close>

text \<open>
  The outcomes of the pieces as sets, and from them the form of every outcome of the
  whole pattern. The substitution loop below terminates because a match is never empty.
\<close>

lemma set_greedy: "set (greedy P s) = {(a, r). s = a @ r \<and> (\<forall>x\<in>set a. P x)}"
proof (induction s)
  case Nil
  then show ?case by auto
next
  case (Cons c cs)
  show ?case
  proof (rule set_eqI, clarify)
    fix a r
    show "((a, r) \<in> set (greedy P (c # cs))) = ((a, r) \<in> {(a, r). c # cs = a @ r \<and> (\<forall>x\<in>set a. P x)})"
      using Cons by (cases a) (auto simp: image_iff)
  qed
qed

lemma set_lazy: "set (lazy P s) = {(a, r). s = a @ r \<and> (\<forall>x\<in>set a. P x)}"
proof (induction s)
  case Nil
  then show ?case by auto
next
  case (Cons c cs)
  show ?case
  proof (rule set_eqI, clarify)
    fix a r
    show "((a, r) \<in> set (lazy P (c # cs))) = ((a, r) \<in> {(a, r). c # cs = a @ r \<and> (\<forall>x\<in>set a. P x)})"
      using Cons by (cases a) (auto simp: image_iff)
  qed
qed

lemma set_lit: "set (lit w s) = {r. s = w @ r}"
  by (auto simp: lit_def) (metis append_take_drop_id)

lemma set_one: "set (one_of P s) = {(c, r). s = c # r \<and> P c}"
  by (cases s) auto

lemma set_guard: "set (guard b) = {u. b}"
  by (auto simp: guard_def)

lemma bindE: "x \<in> set (List.bind xs f) \<Longrightarrow> (\<And>y. y \<in> set xs \<Longrightarrow> x \<in> set (f y) \<Longrightarrow> R) \<Longrightarrow> R"
  by (auto simp: set_list_bind)

lemma bindI: "y \<in> set xs \<Longrightarrow> x \<in> set (f y) \<Longrightarrow> x \<in> set (List.bind xs f)"
  by (auto simp: set_list_bind)

lemma pattern_matches_sound:
  assumes "m \<in> set (pattern_matches s)"
  shows "\<exists>c t attrs ws1 i inner ws2 r.
      s = CHR ''<'' # c # t @ attrs @ CHR ''>'' # ws1 @ i # inner @ ws2 @ ''</'' @ c # t @ CHR ''>'' # r
      \<and> is_ascii_letter c \<and> (\<forall>x\<in>set t. is_tagchar x)
      \<and> word_boundary (last (c # t)) (attrs @ CHR ''>'' # ws1 @ i # inner @ ws2 @ ''</'' @ c # t @ CHR ''>'' # r)
      \<and> (\<forall>x\<in>set attrs. not_gt x) \<and> (\<forall>x\<in>set ws1. is_space x) \<and> not_lt i
      \<and> (\<forall>x\<in>set inner. not_lt x) \<and> (\<forall>x\<in>set ws2. is_space x)
      \<and> m = \<lparr>group0 = take (length s - length r) s, group1 = c # t, group2 = attrs,
         group3 = i # inner, after = r\<rparr>"
  using assms unfolding pattern_matches_def
  apply -
  apply (erule bindE, clarsimp simp only: set_lit set_one set_greedy set_lazy set_guard mem_Collect_eq case_prod_conv split_paired_all)+
  apply (simp del: last.simps)
  apply blast
  done

lemma pattern_at_shorter:
  assumes "pattern_at s = Some m"
  shows "length (after m) < length s"
proof -
  from assms have "m \<in> set (pattern_matches s)"
    by (auto simp: pattern_at_def split: list.splits)
  from pattern_matches_sound [OF this] show ?thesis
    by (elim exE conjE) simp
qed

section \<open>Substitution\<close>

text \<open>
  \<open>pattern.sub(repl, html)\<close>: the text is scanned from left to right. Where the
  pattern matches, the replacement is emitted and the scan goes on after the match;
  elsewhere one character is copied and the scan goes on at the next one. (The pattern
  matches no empty text, so the special treatment of empty matches never applies.)
\<close>

function pattern_sub :: "string \<Rightarrow> string" where
  "pattern_sub s =
     (case pattern_at s of
        Some m \<Rightarrow> repl m @ pattern_sub (after m)
      | None \<Rightarrow> (case s of [] \<Rightarrow> [] | c # cs \<Rightarrow> c # pattern_sub cs))"
  by pat_completeness auto
termination
  by (relation "measure length") (auto dest: pattern_at_shorter)

declare pattern_sub.simps [simp del]

definition transform :: "string \<Rightarrow> string" where
  "transform html = pattern_sub html"

section \<open>Files and the command line\<close>







section \<open>Notions used in the proofs\<close>

text \<open>
  None of the definitions of this section is part of the script. \<open>span_at\<close> reads a
  span deterministically (the open tag ends at the first \<open>>\<close>, the content at the
  next \<open><\<close>, the name is the one of the close tag); it is shown below to find a span
  exactly where the pattern matches. \<open>emit\<close> is the replacement as a function of the
  tag name, the attribute text and the whole content between the tags.
\<close>

definition rstrip :: "string \<Rightarrow> string" where
  "rstrip s = rev (dropWhile is_space (rev s))"


definition span_text :: "string \<Rightarrow> string \<Rightarrow> string \<Rightarrow> string" where
  "span_text tag attrs content =
     CHR ''<'' # tag @ attrs @ CHR ''>'' # content @ CHR ''<'' # CHR ''/'' # tag @ ''>''"

definition wf_span :: "string \<Rightarrow> string \<Rightarrow> string \<Rightarrow> bool" where
  "wf_span tag attrs content =
     (tag \<noteq> [] \<and> is_ascii_letter (hd tag) \<and> list_all is_tagchar tag
      \<and> word_boundary (last tag) (attrs @ ''>'')
      \<and> CHR ''>'' \<notin> set attrs \<and> content \<noteq> [] \<and> CHR ''<'' \<notin> set content)"

definition cut_at :: "char \<Rightarrow> string \<Rightarrow> (string \<times> string) option" where
  "cut_at c s = (case dropWhile (\<lambda>x. x \<noteq> c) s of [] \<Rightarrow> None
              | _ # r \<Rightarrow> Some (takeWhile (\<lambda>x. x \<noteq> c) s, r))"

definition span_at :: "string \<Rightarrow> (string \<times> string \<times> string \<times> string) option" where
  "span_at s =
     (case s of [] \<Rightarrow> None | c0 # s1 \<Rightarrow>
        if c0 \<noteq> CHR ''<'' then None else
        (case cut_at CHR ''>'' s1 of None \<Rightarrow> None | Some (opn, s2) \<Rightarrow>
        (case cut_at CHR ''<'' s2 of None \<Rightarrow> None | Some (content, s3) \<Rightarrow>
        (case s3 of [] \<Rightarrow> None | c1 # s4 \<Rightarrow>
           if c1 \<noteq> CHR ''/'' then None else
           (case cut_at CHR ''>'' s4 of None \<Rightarrow> None | Some (nm, r) \<Rightarrow>
              if take (length nm) opn = nm \<and> wf_span nm (drop (length nm) opn) content
              then Some (nm, drop (length nm) opn, content, r) else None)))))"



section \<open>Properties of the model\<close>

subsection \<open>The pattern matches wherever a span has the right form\<close>

lemma pattern_matches_complete:
  assumes "is_ascii_letter c" "\<forall>x\<in>set t. is_tagchar x"
    "word_boundary (last (c # t)) (attrs @ CHR ''>'' # i # inner @ ''</'' @ c # t @ CHR ''>'' # r)"
    "\<forall>x\<in>set attrs. not_gt x" "not_lt i" "\<forall>x\<in>set inner. not_lt x"
  shows "pattern_matches (CHR ''<'' # c # t @ attrs @ CHR ''>'' # i # inner @ ''</'' @ c # t @ CHR ''>'' # r) \<noteq> []"
proof -
  let ?s = "CHR ''<'' # c # t @ attrs @ CHR ''>'' # i # inner @ ''</'' @ c # t @ CHR ''>'' # r"
  have "\<lparr>group0 = take (length ?s - length r) ?s, group1 = c # t, group2 = attrs,
         group3 = i # inner, after = r\<rparr> \<in> set (pattern_matches ?s)"
    unfolding pattern_matches_def
    apply (rule bindI [where y = "c # t @ attrs @ CHR ''>'' # i # inner @ ''</'' @ c # t @ CHR ''>'' # r"])
     apply (simp add: set_lit)
    apply (rule bindI [where y = "(c, t @ attrs @ CHR ''>'' # i # inner @ ''</'' @ c # t @ CHR ''>'' # r)"])
     apply (simp add: assms)
    apply (simp only: prod.case)
    apply (rule bindI [where y = "(t, attrs @ CHR ''>'' # i # inner @ ''</'' @ c # t @ CHR ''>'' # r)"])
     apply (simp add: set_greedy assms)
    apply (simp only: prod.case)
    apply (rule bindI [where y = "()"])
     apply (insert assms(3), simp add: set_guard del: last.simps)[1]
    apply (rule bindI [where y = "(attrs, CHR ''>'' # i # inner @ ''</'' @ c # t @ CHR ''>'' # r)"])
     apply (simp add: set_greedy assms)
    apply (simp only: prod.case)
    apply (rule bindI [where y = "i # inner @ ''</'' @ c # t @ CHR ''>'' # r"])
     apply (simp add: set_lit)
    apply (rule bindI [where y = "([], i # inner @ ''</'' @ c # t @ CHR ''>'' # r)"])
     apply (simp add: set_greedy)
    apply (simp only: prod.case)
    apply (rule bindI [where y = "(i, inner @ ''</'' @ c # t @ CHR ''>'' # r)"])
     apply (simp add: assms)
    apply (simp only: prod.case)
    apply (rule bindI [where y = "(inner, ''</'' @ c # t @ CHR ''>'' # r)"])
     apply (simp add: set_lazy assms)
    apply (simp only: prod.case)
    apply (rule bindI [where y = "([], ''</'' @ c # t @ CHR ''>'' # r)"])
     apply (simp add: set_greedy)
    apply (simp only: prod.case)
    apply (rule bindI [where y = "r"])
     apply (simp add: set_lit)
    apply simp
    done
  then show ?thesis by auto
qed

subsection \<open>Character classes\<close>


lemma code_less: "code c < 256"
  by (simp add: code_def)


lemma code_simps:
  "code CHR ''<'' = 60" "code CHR ''>'' = 62" "code CHR ''/'' = 47" "code CHR '':'' = 58"
  "code CHR ''-'' = 45" "code CHR '' '' = 32" "code (CHR 0x0A) = 10"
  by (simp_all add: code_def)


lemma tagchar_not_delim:
  assumes "is_tagchar c"
  shows "c \<noteq> CHR ''<''" "c \<noteq> CHR ''>''" "c \<noteq> CHR ''/''"
  using assms by (auto simp: is_tagchar_def is_word_def code_simps)

lemma letter_tagchar: "is_ascii_letter c \<Longrightarrow> is_tagchar c"
  by (auto simp: is_ascii_letter_def is_tagchar_def is_word_def)

lemma space_simps: "is_space CHR '' ''" "is_space (CHR 0x0A)" "\<not> is_space CHR ''<''"
  by (simp_all add: is_space_def code_simps)





subsection \<open>Collapsing and stripping\<close>

text \<open>
  Stripping commutes with collapsing, both are idempotent, and whitespace around a text does not change its normal form.
\<close>

lemma strip_rstrip: "strip s = rstrip (dropWhile is_space s)"
  by (simp add: strip_def rstrip_def)

lemma rstrip_decomp: "\<exists>ws. s = rstrip s @ ws \<and> (\<forall>x\<in>set ws. is_space x)"
proof -
  have "rev s = takeWhile is_space (rev s) @ dropWhile is_space (rev s)" by simp
  then have "s = rev (dropWhile is_space (rev s)) @ rev (takeWhile is_space (rev s))"
    by (metis rev_append rev_rev_ident)
  moreover have "\<forall>x\<in>set (rev (takeWhile is_space (rev s))). is_space x"
    by (auto dest: set_takeWhileD)
  ultimately show ?thesis unfolding rstrip_def by blast
qed

lemma rstrip_last: "rstrip s \<noteq> [] \<Longrightarrow> \<not> is_space (last (rstrip s))"
  unfolding rstrip_def by (simp add: last_rev hd_dropWhile)

lemma rstrip_append_spaces: "\<forall>x\<in>set ws. is_space x \<Longrightarrow> rstrip (s @ ws) = rstrip s"
  using dropWhile_append2 [of "rev ws" is_space "rev s"] by (simp add: rstrip_def)

lemma rstrip_id: "s = [] \<or> \<not> is_space (last s) \<Longrightarrow> rstrip s = s"
  by (cases s rule: rev_cases) (auto simp: rstrip_def)

lemma collapse_spaces: "\<forall>x\<in>set ws. is_space x \<Longrightarrow> collapse ws = (if ws = [] then [] else '' '')"
proof (cases ws)
  case Nil
  then show ?thesis by simp
next
  case (Cons c cs)
  assume "\<forall>x\<in>set ws. is_space x"
  with Cons have c: "is_space c" and dw: "dropWhile is_space cs = []"
    by auto
  show ?thesis using Cons c by (simp add: dw del: dropWhile_eq_Nil_conv)
qed

lemma lstrip_collapse_id:
  "z = [] \<or> \<not> is_space (hd z) \<Longrightarrow> dropWhile is_space (collapse z) = collapse z"
  by (cases z) auto

lemma lstrip_collapse: "dropWhile is_space (collapse y) = collapse (dropWhile is_space y)"
proof (cases y)
  case Nil
  then show ?thesis by simp
next
  case (Cons c cs)
  show ?thesis
  proof (cases "is_space c")
    case True
    have "dropWhile is_space cs = [] \<or> \<not> is_space (hd (dropWhile is_space cs))"
      using hd_dropWhile [of is_space cs] by blast
    then show ?thesis using Cons True by (simp add: space_simps lstrip_collapse_id)
  next
    case False
    then show ?thesis using Cons by simp
  qed
qed


lemma collapse_append:
  "a = [] \<or> \<not> is_space (last a) \<Longrightarrow> collapse (a @ b) = collapse a @ collapse b"
proof (induction a rule: collapse.induct)
  case 1
  then show ?case by simp
next
  case (2 c cs)
  show ?case
  proof (cases "is_space c")
    case True
    with "2.prems" have ne: "cs \<noteq> []" and nl: "\<not> is_space (last cs)"
      by (auto split: if_splits)
    then have mem: "last cs \<in> set cs" by simp
    have dw: "dropWhile is_space (cs @ b) = dropWhile is_space cs @ b"
      using mem nl by (rule dropWhile_append1)
    have dne: "dropWhile is_space cs \<noteq> []"
      using mem nl by (auto simp: dropWhile_eq_Nil_conv)
    have "last (dropWhile is_space cs) = last cs"
      using dne by (metis last_appendR takeWhile_dropWhile_id)
    with nl 2 True dne have "collapse (dropWhile is_space cs @ b)
        = collapse (dropWhile is_space cs) @ collapse b" by simp
    then show ?thesis using True dw by simp
  next
    case False
    with 2 show ?thesis by (cases cs) auto
  qed
qed

lemma collapse_last:
  "a \<noteq> [] \<Longrightarrow> \<not> is_space (last a) \<Longrightarrow> collapse a \<noteq> [] \<and> last (collapse a) = last a"
proof (induction a rule: collapse.induct)
  case 1
  then show ?case by simp
next
  case (2 c cs)
  show ?case
  proof (cases "is_space c")
    case True
    with "2.prems" have ne: "cs \<noteq> []" and nl: "\<not> is_space (last cs)"
      by (auto split: if_splits)
    then have mem: "last cs \<in> set cs" by simp
    have dne: "dropWhile is_space cs \<noteq> []"
      using mem nl by (auto simp: dropWhile_eq_Nil_conv)
    have "last (dropWhile is_space cs) = last cs"
      using dne by (metis last_appendR takeWhile_dropWhile_id)
    with 2 True dne nl ne show ?thesis by simp
  next
    case False
    with 2 show ?thesis by (cases cs) auto
  qed
qed

lemma rstrip_collapse: "rstrip (collapse y) = collapse (rstrip y)"
proof -
  obtain ws where y: "y = rstrip y @ ws" and ws: "\<forall>x\<in>set ws. is_space x"
    using rstrip_decomp by blast
  have a: "rstrip y = [] \<or> \<not> is_space (last (rstrip y))"
    using rstrip_last by blast
  have "collapse y = collapse (rstrip y) @ collapse ws"
    using collapse_append [OF a, of ws] y by simp
  moreover have "\<forall>x\<in>set (collapse ws). is_space x"
    using ws by (simp add: collapse_spaces space_simps)
  ultimately have "rstrip (collapse y) = rstrip (collapse (rstrip y))"
    by (simp add: rstrip_append_spaces)
  moreover have "collapse (rstrip y) = [] \<or> \<not> is_space (last (collapse (rstrip y)))"
  proof (cases "rstrip y = []")
    case True
    then show ?thesis by simp
  next
    case False
    with a have "\<not> is_space (last (rstrip y))" by simp
    with False collapse_last [of "rstrip y"] show ?thesis by simp
  qed
  ultimately show ?thesis by (simp add: rstrip_id)
qed

lemma strip_collapse: "strip (collapse y) = collapse (strip y)"
  by (simp add: strip_rstrip lstrip_collapse rstrip_collapse)








lemma collapse_Nil_iff: "collapse x = [] \<longleftrightarrow> x = []"
  by (cases x) auto

lemma norm_text_empty_iff: "strip (collapse x) = [] \<longleftrightarrow> (\<forall>c\<in>set x. is_space c)"
proof -
  have "strip (collapse x) = [] \<longleftrightarrow> strip x = []"
    by (simp add: strip_collapse collapse_Nil_iff)
  also have "\<dots> \<longleftrightarrow> (\<forall>c\<in>set (dropWhile is_space x). is_space c)"
    by (simp add: strip_def)
  also have "\<dots> \<longleftrightarrow> (\<forall>c\<in>set x. is_space c)"
  proof
    assume a: "\<forall>c\<in>set (dropWhile is_space x). is_space c"
    have "dropWhile is_space x = []"
    proof (rule ccontr)
      assume n: "dropWhile is_space x \<noteq> []"
      then have "\<not> is_space (hd (dropWhile is_space x))" by (rule hd_dropWhile)
      moreover have "hd (dropWhile is_space x) \<in> set (dropWhile is_space x)"
        using n by (rule hd_in_set)
      ultimately show False using a by blast
    qed
    then show "\<forall>c\<in>set x. is_space c" by simp
  next
    assume "\<forall>c\<in>set x. is_space c"
    then show "\<forall>c\<in>set (dropWhile is_space x). is_space c"
      by (auto dest: set_dropWhileD)
  qed
  finally show ?thesis .
qed











subsection \<open>Reading a span deterministically\<close>

text \<open>
  A text has at most one reading as a span followed by a rest, and \<open>span_at\<close> finds it.
\<close>

lemma dropWhile_neq_all: "c \<notin> set u \<Longrightarrow> dropWhile (\<lambda>x. x \<noteq> c) (u @ v) = dropWhile (\<lambda>x. x \<noteq> c) v"
  by (rule dropWhile_append2) auto

lemma takeWhile_neq_all: "c \<notin> set u \<Longrightarrow> takeWhile (\<lambda>x. x \<noteq> c) (u @ c # v) = u"
proof -
  assume a: "c \<notin> set u"
  have "takeWhile (\<lambda>x. x \<noteq> c) (u @ c # v) = takeWhile (\<lambda>x. x \<noteq> c) u"
    by (rule takeWhile_tail) simp
  also have "\<dots> = u" using a by (subst takeWhile_eq_all_conv) auto
  finally show ?thesis .
qed

lemma cut_first: "c \<notin> set u \<Longrightarrow> cut_at c (u @ c # r) = Some (u, r)"
  by (simp add: cut_at_def dropWhile_neq_all takeWhile_neq_all)

lemma cut_None: "c \<notin> set s \<Longrightarrow> cut_at c s = None"
proof -
  assume "c \<notin> set s"
  then have "dropWhile (\<lambda>x. x \<noteq> c) (s @ []) = dropWhile (\<lambda>x. x \<noteq> c) []"
    by (rule dropWhile_neq_all)
  then have d: "dropWhile (\<lambda>x. x \<noteq> c) s = []" by (simp del: dropWhile_eq_Nil_conv)
  show ?thesis unfolding cut_at_def d by simp
qed

lemma cut_cases:
  obtains (None) "c \<notin> set s" "cut_at c s = None"
  | (Some) u r where "s = u @ c # r" "c \<notin> set u" "cut_at c s = Some (u, r)"
proof (cases "c \<in> set s")
  case False
  then have "cut_at c s = None" by (rule cut_None)
  with False show ?thesis by (rule that(1))
next
  case True
  then obtain u r where s: "s = u @ c # r" and u: "c \<notin> set u"
    by (auto dest: split_list_first)
  from cut_first [OF u, of r] s have "cut_at c s = Some (u, r)" by simp
  with s u show ?thesis by (rule that(2))
qed

lemma cut_SomeD: "cut_at c s = Some (u, r) \<Longrightarrow> s = u @ c # r \<and> c \<notin> set u"
  by (rule cut_cases [of c s]) auto

lemma split_unique:
  fixes c :: char
  assumes "c \<notin> set u" "c \<notin> set u'" "u @ c # v = u' @ c # v'"
  shows "u = u' \<and> v = v'"
proof -
  have "Some (u, v) = cut_at c (u @ c # v)" using assms(1) by (rule cut_first [symmetric])
  also have "\<dots> = cut_at c (u' @ c # v')" by (simp only: assms(3))
  also have "\<dots> = Some (u', v')" using assms(2) by (rule cut_first)
  finally show ?thesis by simp
qed

lemma tag_no_delim:
  assumes "list_all is_tagchar tag"
  shows "CHR ''>'' \<notin> set tag" "CHR ''<'' \<notin> set tag"
proof -
  have "\<forall>x\<in>set tag. is_tagchar x" using assms by (simp add: list_all_iff)
  then show "CHR ''>'' \<notin> set tag" using tagchar_not_delim(2) by blast
next
  have "\<forall>x\<in>set tag. is_tagchar x" using assms by (simp add: list_all_iff)
  then show "CHR ''<'' \<notin> set tag" using tagchar_not_delim(1) by blast
qed

lemma wf_span_tag:
  assumes "wf_span t a c"
  shows "CHR ''>'' \<notin> set t" "CHR ''<'' \<notin> set t" "t \<noteq> []" "hd t \<noteq> CHR ''/''"
    "CHR ''>'' \<notin> set a" "CHR ''<'' \<notin> set c" "CHR ''>'' \<notin> set (t @ a)"
proof -
  from assms have l: "list_all is_tagchar t" and n: "t \<noteq> []" and h: "is_ascii_letter (hd t)"
    and a: "CHR ''>'' \<notin> set a" and c: "CHR ''<'' \<notin> set c"
    by (simp_all add: wf_span_def)
  from tag_no_delim [OF l] show g: "CHR ''>'' \<notin> set t" and "CHR ''<'' \<notin> set t" by simp_all
  show "t \<noteq> []" by (rule n)
  from h have "is_tagchar (hd t)" by (rule letter_tagchar)
  then show "hd t \<noteq> CHR ''/''" by (rule tagchar_not_delim(3))
  show "CHR ''>'' \<notin> set a" by (rule a)
  show "CHR ''<'' \<notin> set c" by (rule c)
  from g a show "CHR ''>'' \<notin> set (t @ a)" by simp
qed

lemma span_atI:
  assumes "wf_span tag attrs content"
  shows "span_at (span_text tag attrs content @ r) = Some (tag, attrs, content, r)"
proof -
  from assms have t: "CHR ''>'' \<notin> set (tag @ attrs)" and c: "CHR ''<'' \<notin> set content"
    and g: "CHR ''>'' \<notin> set tag"
    using tag_no_delim by (auto simp: wf_span_def)
  have 1: "cut_at CHR ''>'' (tag @ attrs @ CHR ''>'' # content @ CHR ''<'' # CHR ''/'' # tag @ CHR ''>'' # r)
      = Some (tag @ attrs, content @ CHR ''<'' # CHR ''/'' # tag @ CHR ''>'' # r)"
    using cut_first [OF t] by simp
  have 2: "cut_at CHR ''<'' (content @ CHR ''<'' # CHR ''/'' # tag @ CHR ''>'' # r)
      = Some (content, CHR ''/'' # tag @ CHR ''>'' # r)"
    using cut_first [OF c] by simp
  have 3: "cut_at CHR ''>'' (tag @ CHR ''>'' # r) = Some (tag, r)"
    using cut_first [OF g] by simp
  show ?thesis using assms by (simp add: span_at_def span_text_def 1 2 3)
qed

lemma span_atD:
  assumes "span_at s = Some (tag, attrs, content, r)"
  shows "wf_span tag attrs content \<and> s = span_text tag attrs content @ r"
proof (cases s)
  case Nil
  with assms show ?thesis by (simp add: span_at_def)
next
  case (Cons c0 s1)
  show ?thesis
  proof (cases "c0 = CHR ''<''")
    case False
    with assms Cons show ?thesis by (simp add: span_at_def)
  next
    case c0: True
    show ?thesis
    proof (cases rule: cut_cases [of "CHR ''>''" s1])
      case None
      with assms Cons c0 show ?thesis by (simp add: span_at_def)
    next
      case (Some opn s2)
      note c1 = Some
      show ?thesis
      proof (cases rule: cut_cases [of "CHR ''<''" s2])
        case None
        with assms Cons c0 c1 show ?thesis by (simp add: span_at_def)
      next
        case (Some cont s3)
        note c2 = Some
        show ?thesis
        proof (cases s3)
          case Nil
          with assms Cons c0 c1 c2 show ?thesis by (simp add: span_at_def)
        next
          case (Cons x s4)
          note s3 = Cons
          show ?thesis
          proof (cases "x = CHR ''/''")
            case False
            with assms \<open>s = c0 # s1\<close> c0 c1 c2 s3 show ?thesis by (simp add: span_at_def)
          next
            case x: True
            show ?thesis
            proof (cases rule: cut_cases [of "CHR ''>''" s4])
              case None
              with assms \<open>s = c0 # s1\<close> c0 c1 c2 s3 x show ?thesis by (simp add: span_at_def)
            next
              case (Some nm r')
              have red: "span_at s =
                  (if take (length nm) opn = nm \<and> wf_span nm (drop (length nm) opn) cont
                   then Some (nm, drop (length nm) opn, cont, r') else None)"
                using \<open>s = c0 # s1\<close> c0 c1(3) c2(3) s3 x Some(3) by (simp add: span_at_def)
              with assms have e: "take (length nm) opn = nm"
                "wf_span nm (drop (length nm) opn) cont"
                "tag = nm" "attrs = drop (length nm) opn" "content = cont" "r = r'"
                by (auto split: if_splits)
              from e(1) have "opn = nm @ drop (length nm) opn"
                by (metis append_take_drop_id)
              with e have o: "opn = tag @ attrs" by simp
              from e have wf: "wf_span tag attrs content" by simp
              show ?thesis
                using \<open>s = c0 # s1\<close> c0 c1(1) c2(1) s3 x Some(1) o wf e(3,5,6)
                by (simp add: span_text_def)
            qed
          qed
        qed
      qed
    qed
  qed
qed

lemma span_at_iff:
  "span_at s = Some (tag, attrs, content, r) \<longleftrightarrow>
   wf_span tag attrs content \<and> s = span_text tag attrs content @ r"
  using span_atI span_atD by blast

lemma word_boundary_append: "xs \<noteq> [] \<Longrightarrow> word_boundary c (xs @ ys) = word_boundary c xs"
  by (cases xs) (auto simp: word_boundary_def)

subsection \<open>The pattern against the deterministic reading\<close>

text \<open>
  The backtracking matcher succeeds exactly where \<open>span_at\<close> finds a span, and with the same name, attributes, content and rest.
\<close>

lemma pattern_matches_span:
  assumes "m \<in> set (pattern_matches s)"
  shows "\<exists>ws1 ws2. (\<forall>x\<in>set ws1. is_space x) \<and> (\<forall>x\<in>set ws2. is_space x)
     \<and> span_at s = Some (group1 m, group2 m, ws1 @ group3 m @ ws2, after m)
     \<and> group0 m = span_text (group1 m) (group2 m) (ws1 @ group3 m @ ws2)"
proof -
  from pattern_matches_sound [OF assms] obtain c t attrs ws1 i inner ws2 r where
    s: "s = CHR ''<'' # c # t @ attrs @ CHR ''>'' # ws1 @ i # inner @ ws2 @ ''</'' @ c # t @ CHR ''>'' # r"
    and c: "is_ascii_letter c" and t: "\<forall>x\<in>set t. is_tagchar x"
    and b: "word_boundary (last (c # t)) (attrs @ CHR ''>'' # ws1 @ i # inner @ ws2 @ ''</'' @ c # t @ CHR ''>'' # r)"
    and a: "\<forall>x\<in>set attrs. not_gt x" and w1: "\<forall>x\<in>set ws1. is_space x" and i: "not_lt i"
    and n: "\<forall>x\<in>set inner. not_lt x" and w2: "\<forall>x\<in>set ws2. is_space x"
    and m: "m = \<lparr>group0 = take (length s - length r) s, group1 = c # t, group2 = attrs,
         group3 = i # inner, after = r\<rparr>"
    by (elim exE conjE)
  have b': "word_boundary (last (c # t)) (attrs @ ''>'')"
    using b word_boundary_append [of "attrs @ ''>''" "last (c # t)"
        "ws1 @ i # inner @ ws2 @ ''</'' @ c # t @ CHR ''>'' # r"]
    by (simp del: last.simps)
  have tc: "list_all is_tagchar (c # t)"
    using c t letter_tagchar by (simp add: list_all_iff)
  have ws1_lt: "CHR ''<'' \<notin> set ws1" using w1 space_simps(3) by blast
  have ws2_lt: "CHR ''<'' \<notin> set ws2" using w2 space_simps(3) by blast
  have in_lt: "CHR ''<'' \<notin> set (i # inner)" using i n by (auto simp: not_lt_def)
  have at_gt: "CHR ''>'' \<notin> set attrs" using a by (auto simp: not_gt_def)
  have wf: "wf_span (c # t) attrs (ws1 @ (i # inner) @ ws2)"
    unfolding wf_span_def using c tc b' ws1_lt ws2_lt in_lt at_gt by simp
  have st: "s = span_text (c # t) attrs (ws1 @ (i # inner) @ ws2) @ r"
    using s by (simp add: span_text_def)
  then have g0: "take (length s - length r) s = span_text (c # t) attrs (ws1 @ (i # inner) @ ws2)"
    by simp
  have sp: "span_at s = Some (c # t, attrs, ws1 @ (i # inner) @ ws2, r)"
    unfolding st by (rule span_atI [OF wf])
  have "(\<forall>x\<in>set ws1. is_space x) \<and> (\<forall>x\<in>set ws2. is_space x)
     \<and> span_at s = Some (group1 m, group2 m, ws1 @ group3 m @ ws2, after m)
     \<and> group0 m = span_text (group1 m) (group2 m) (ws1 @ group3 m @ ws2)"
    using w1 w2 sp g0 by (simp add: m)
  then show ?thesis by blast
qed

lemma span_at_pattern_matches:
  assumes "span_at s = Some (tag, attrs, content, r)"
  shows "pattern_matches s \<noteq> []"
proof -
  from span_atD [OF assms] have wf: "wf_span tag attrs content"
    and s: "s = span_text tag attrs content @ r" by simp_all
  from wf obtain c t where tag: "tag = c # t" by (cases tag) (simp_all add: wf_span_def)
  from wf obtain i inner where cont: "content = i # inner"
    by (cases content) (simp_all add: wf_span_def)
  have b0: "word_boundary (last (c # t)) (attrs @ ''>'')"
    using wf tag by (simp add: wf_span_def del: last.simps)
  have b: "word_boundary (last (c # t))
      (attrs @ CHR ''>'' # i # inner @ ''</'' @ c # t @ CHR ''>'' # r)"
    using b0 word_boundary_append [of "attrs @ ''>''" "last (c # t)"
        "i # inner @ ''</'' @ c # t @ CHR ''>'' # r"]
    by (simp del: last.simps)
  have c: "is_ascii_letter c" using wf tag by (simp add: wf_span_def)
  have t: "\<forall>x\<in>set t. is_tagchar x" using wf tag by (simp add: wf_span_def list_all_iff)
  have a: "\<forall>x\<in>set attrs. not_gt x" using wf by (auto simp: wf_span_def not_gt_def)
  have i: "not_lt i" using wf cont by (auto simp: wf_span_def not_lt_def)
  have n: "\<forall>x\<in>set inner. not_lt x" using wf cont by (auto simp: wf_span_def not_lt_def)
  have "pattern_matches (CHR ''<'' # c # t @ attrs @ CHR ''>'' # i # inner @ ''</'' @ c # t @ CHR ''>'' # r) \<noteq> []"
    using c t b a i n by (rule pattern_matches_complete)
  then show ?thesis using s tag cont by (simp add: span_text_def)
qed

lemma pattern_at_None_iff: "pattern_at s = None \<longleftrightarrow> span_at s = None"
proof
  assume "pattern_at s = None"
  then have "pattern_matches s = []" by (simp add: pattern_at_def split: list.splits)
  then show "span_at s = None" using span_at_pattern_matches [of s] by (cases "span_at s") auto
next
  assume a: "span_at s = None"
  show "pattern_at s = None"
  proof (cases "pattern_matches s")
    case Nil
    then show ?thesis by (simp add: pattern_at_def)
  next
    case (Cons m ms)
    then have "m \<in> set (pattern_matches s)" by simp
    from pattern_matches_span [OF this] a show ?thesis by auto
  qed
qed

lemma pattern_at_SomeD:
  assumes "pattern_at s = Some m"
  shows "\<exists>ws1 ws2. (\<forall>x\<in>set ws1. is_space x) \<and> (\<forall>x\<in>set ws2. is_space x)
     \<and> span_at s = Some (group1 m, group2 m, ws1 @ group3 m @ ws2, after m)
     \<and> group0 m = span_text (group1 m) (group2 m) (ws1 @ group3 m @ ws2)"
proof -
  from assms have "m \<in> set (pattern_matches s)"
    by (auto simp: pattern_at_def split: list.splits)
  then show ?thesis by (rule pattern_matches_span)
qed

lemma match_shape:
  assumes "pattern_at s = Some m"
  shows "\<exists>ws1 ws2. (\<forall>c\<in>set ws1. is_space c) \<and> (\<forall>c\<in>set ws2. is_space c)
       \<and> s = ''<'' @ group1 m @ group2 m @ ''>'' @ ws1 @ group3 m @ ws2
              @ ''</'' @ group1 m @ ''>'' @ after m"
    and "CHR ''>'' \<notin> set (group2 m)" and "CHR ''<'' \<notin> set (group3 m)"
proof -
  from pattern_at_SomeD [OF assms] obtain ws1 ws2 where
    w: "\<forall>x\<in>set ws1. is_space x" "\<forall>x\<in>set ws2. is_space x"
    and sp: "span_at s = Some (group1 m, group2 m, ws1 @ group3 m @ ws2, after m)"
    by blast
  from span_atD [OF sp] have wf: "wf_span (group1 m) (group2 m) (ws1 @ group3 m @ ws2)"
    and s: "s = span_text (group1 m) (group2 m) (ws1 @ group3 m @ ws2) @ after m"
    by simp_all
  from s have "s = ''<'' @ group1 m @ group2 m @ ''>'' @ ws1 @ group3 m @ ws2
              @ ''</'' @ group1 m @ ''>'' @ after m"
    by (simp add: span_text_def)
  with w show "\<exists>ws1 ws2. (\<forall>c\<in>set ws1. is_space c) \<and> (\<forall>c\<in>set ws2. is_space c)
       \<and> s = ''<'' @ group1 m @ group2 m @ ''>'' @ ws1 @ group3 m @ ws2
              @ ''</'' @ group1 m @ ''>'' @ after m"
    by blast
  from wf show "CHR ''>'' \<notin> set (group2 m)" by (simp add: wf_span_def)
  from wf show "CHR ''<'' \<notin> set (group3 m)" by (simp add: wf_span_def)
qed

lemma match_text: "pattern_at s = Some m \<Longrightarrow> s = group0 m @ after m"
proof -
  assume "pattern_at s = Some m"
  from pattern_at_SomeD [OF this] obtain ws1 ws2 where
    "span_at s = Some (group1 m, group2 m, ws1 @ group3 m @ ws2, after m)"
    "group0 m = span_text (group1 m) (group2 m) (ws1 @ group3 m @ ws2)" by blast
  with span_atD [of s] show ?thesis by simp
qed

lemma case_mismatch_no_match:
  assumes l: "lower t1 = lower t2" and ne: "t1 \<noteq> t2"
    and g1: "CHR ''>'' \<notin> set t1" and g2: "CHR ''>'' \<notin> set t2" and tx: "CHR ''<'' \<notin> set text"
  shows "pattern_at (''<'' @ t1 @ ''>'' @ text @ ''</'' @ t2 @ ''>'' @ r) = None"
proof -
  let ?s = "''<'' @ t1 @ ''>'' @ text @ ''</'' @ t2 @ ''>'' @ r"
  have "span_at ?s = None"
  proof (rule ccontr)
    assume "span_at ?s \<noteq> None"
    then obtain t a c r' where sp: "span_at ?s = Some (t, a, c, r')"
      by (cases "span_at ?s") auto
    from span_atD [OF sp] have wf: "wf_span t a c" and s: "?s = span_text t a c @ r'"
      by simp_all
    note wt = wf_span_tag [OF wf]
    have "t1 @ CHR ''>'' # (text @ CHR ''<'' # CHR ''/'' # t2 @ CHR ''>'' # r)
        = (t @ a) @ CHR ''>'' # (c @ CHR ''<'' # CHR ''/'' # t @ CHR ''>'' # r')"
      using s by (simp add: span_text_def)
    from split_unique [OF g1 wt(7) this]
    have o: "t1 = t @ a"
      and e2: "text @ CHR ''<'' # (CHR ''/'' # t2 @ CHR ''>'' # r) = c @ CHR ''<'' # (CHR ''/'' # t @ CHR ''>'' # r')"
      by simp_all
    from split_unique [OF tx wt(6) e2] have e3: "t2 @ CHR ''>'' # r = t @ CHR ''>'' # r'"
      by simp
    from split_unique [OF g2 wt(1) e3] have "t2 = t" by simp
    with o have "t1 = t2 @ a" by simp
    moreover have "length t1 = length t2"
      using l by (metis length_map lower_def)
    ultimately have "t1 = t2" by simp
    with ne show False by simp
  qed
  then show ?thesis by (simp add: pattern_at_None_iff)
qed

subsection \<open>The substitution\<close>

lemma repl_unfold:
  "repl m =
     (if lower (group1 m) \<in> VOID \<or> lower (group1 m) \<in> EXCLUDED
         \<or> strip (collapse (group3 m)) = [] then group0 m
      else ''<'' @ lower (group1 m) @ group2 m @ ''>'' @ ''\<newline>'' @ ''  ''
           @ strip (collapse (group3 m)) @ ''\<newline>'' @ ''</'' @ lower (group1 m) @ ''>'')"
  by (simp add: repl_def Let_def COLLAPSE_WHITESPACE_def TRIM_TEXT_def INDENT_def)



lemma pattern_sub_match:
  "pattern_at s = Some m \<Longrightarrow> pattern_sub s = repl m @ pattern_sub (after m)"
  by (subst pattern_sub.simps) simp

lemma pattern_sub_skip:
  "pattern_at (c # cs) = None \<Longrightarrow> pattern_sub (c # cs) = c # pattern_sub cs"
  by (subst pattern_sub.simps) simp


lemma transform_match:
  "pattern_at s = Some m \<Longrightarrow> transform s = repl m @ transform (after m)"
  by (simp add: transform_def pattern_sub_match)

lemma scan_gap:
  "\<forall>n<k. pattern_at (drop n s) = None \<Longrightarrow> k \<le> length s \<Longrightarrow>
   pattern_sub s = take k s @ pattern_sub (drop k s)"
proof (induction k arbitrary: s)
  case 0
  then show ?case by simp
next
  case (Suc k)
  then obtain c cs where s: "s = c # cs" by (cases s) auto
  from Suc.prems(1) have "pattern_at (drop 0 s) = None" by blast
  then have 1: "pattern_sub s = c # pattern_sub cs" using s by (simp add: pattern_sub_skip)
  have "\<forall>n<k. pattern_at (drop n cs) = None"
  proof (intro allI impI)
    fix n assume "n < k"
    then have "pattern_at (drop (Suc n) s) = None" using Suc.prems(1) by auto
    then show "pattern_at (drop n cs) = None" using s by simp
  qed
  moreover have "k \<le> length cs" using Suc.prems(2) s by simp
  ultimately have "pattern_sub cs = take k cs @ pattern_sub (drop k cs)" by (rule Suc.IH)
  with 1 s show ?case by simp
qed


subsection \<open>A second pass\<close>









section \<open>The specified properties\<close>

text \<open>
  In the theorems below \<open>s\<close> is the text from the position of the scan on, and
  \<open>pattern_at s = Some m\<close> says that the scan finds the match \<open>m\<close> there: these are
  the matches that \<open>pattern_sub\<close> hands to \<open>repl\<close>. A span qualifies when its
  name, in lower case, is in neither table and its text is not empty after collapsing
  and stripping.
\<close>

text \<open>
  C1 (as amended). For every qualifying span the replacement spells the tag name in
  lower case, in the open tag and in the close tag alike: \<open><P>hi</P>\<close> becomes
  \<open><p>\<close>, a line with \<open>hi\<close> indented by two spaces, and \<open></p>\<close>. The original
  spelling is not kept.
\<close>

theorem repl_uses_lowercased_tag_name:
  assumes "pattern_at s = Some m"
    and "lower (group1 m) \<notin> VOID" and "lower (group1 m) \<notin> EXCLUDED"
    and "strip (collapse (group3 m)) \<noteq> []"
  shows "repl m = (''<'' @ lower (group1 m) @ group2 m @ ''>'') @ ''\<newline>'' @ ''  ''
                  @ strip (collapse (group3 m)) @ ''\<newline>''
                  @ (''</'' @ lower (group1 m) @ ''>'')
       \<and> transform s = repl m @ transform (after m)"
  using assms by (simp add: repl_unfold transform_match)

theorem repl_uses_lowercased_tag_name_witness:
  "pattern_at ''<P>hi</P>''
     = Some \<lparr>group0 = ''<P>hi</P>'', group1 = ''P'', group2 = [], group3 = ''hi'', after = []\<rparr>
   \<and> lower ''P'' \<notin> VOID \<and> lower ''P'' \<notin> EXCLUDED \<and> strip (collapse ''hi'') \<noteq> []
   \<and> repl \<lparr>group0 = ''<P>hi</P>'', group1 = ''P'', group2 = [], group3 = ''hi'', after = []\<rparr>
       = ''<p>\<newline>  hi\<newline></p>''
   \<and> transform ''<P>hi</P>'' = ''<p>\<newline>  hi\<newline></p>''"
proof -
  let ?m = "\<lparr>group0 = ''<P>hi</P>'', group1 = ''P'', group2 = [], group3 = ''hi'', after = []\<rparr>"
  have h1: "pattern_at ''<P>hi</P>'' = Some ?m" by code_simp
  have v1: "lower ''P'' = ''p''" by code_simp
  have h2: "lower (group1 ?m) \<notin> VOID" by (simp add: v1 VOID_def)
  have h3: "lower (group1 ?m) \<notin> EXCLUDED" by (simp add: v1 EXCLUDED_def)
  have v2: "strip (collapse ''hi'') = ''hi''" by code_simp
  have h4: "strip (collapse (group3 ?m)) \<noteq> []" by (simp add: v2 del: collapse.simps)
  have v3: "transform [] = []" by code_simp
  from repl_uses_lowercased_tag_name [OF h1 h2 h3 h4] h1 h2 h3 h4 v1 v2 v3
  show ?thesis by (simp del: collapse.simps)
qed

theorem original_tag_spelling_counterexample:
  "transform ''<P>hi</P>'' \<noteq> ''<P>\<newline>  hi\<newline></P>''"
proof -
  have "transform ''<P>hi</P>'' = ''<p>\<newline>  hi\<newline></p>''" by code_simp
  then show ?thesis by simp
qed





text \<open>
  C4. A matched span whose tag name, in lower case, is in the void set or in the
  excluded set is emitted exactly as it was matched, whatever the casing of the name.
\<close>

theorem void_excluded_emitted_unchanged:
  "(pattern_at s = Some m \<and> (lower (group1 m) \<in> VOID \<or> lower (group1 m) \<in> EXCLUDED)
      \<longrightarrow> repl m = group0 m \<and> s = group0 m @ after m
          \<and> transform s = group0 m @ transform (after m))
   \<and> transform ''<pre>  x\<newline>  y  </pre>'' = ''<pre>  x\<newline>  y  </pre>''
   \<and> transform ''<PRE>  x\<newline>  y  </PRE>'' = ''<PRE>  x\<newline>  y  </PRE>''
   \<and> transform ''<Code>a  b</Code>'' = ''<Code>a  b</Code>''"
proof -
  have "repl m = group0 m \<and> s = group0 m @ after m
          \<and> transform s = group0 m @ transform (after m)"
    if a: "pattern_at s = Some m" and b: "lower (group1 m) \<in> VOID \<or> lower (group1 m) \<in> EXCLUDED"
  proof -
    from b have "repl m = group0 m" by (auto simp: repl_unfold)
    with transform_match [OF a] match_text [OF a] show ?thesis by simp
  qed
  moreover have "transform ''<pre>  x\<newline>  y  </pre>'' = ''<pre>  x\<newline>  y  </pre>''"
    by code_simp
  moreover have "transform ''<PRE>  x\<newline>  y  </PRE>'' = ''<PRE>  x\<newline>  y  </PRE>''"
    by code_simp
  moreover have "transform ''<Code>a  b</Code>'' = ''<Code>a  b</Code>''"
    by code_simp
  ultimately show ?thesis by blast
qed

theorem void_excluded_emitted_unchanged_witness:
  "pattern_at ''<PRE> x </PRE>y''
     = Some \<lparr>group0 = ''<PRE> x </PRE>'', group1 = ''PRE'', group2 = [], group3 = ''x'',
             after = ''y''\<rparr>
   \<and> lower ''PRE'' \<in> EXCLUDED
   \<and> repl \<lparr>group0 = ''<PRE> x </PRE>'', group1 = ''PRE'', group2 = [], group3 = ''x'',
            after = ''y''\<rparr> = ''<PRE> x </PRE>''
   \<and> transform ''<PRE> x </PRE>y'' = ''<PRE> x </PRE>'' @ transform ''y''"
proof -
  let ?m = "\<lparr>group0 = ''<PRE> x </PRE>'', group1 = ''PRE'', group2 = [], group3 = ''x'',
             after = ''y''\<rparr>"
  have h1: "pattern_at ''<PRE> x </PRE>y'' = Some ?m" by code_simp
  have v1: "lower ''PRE'' = ''pre''" by code_simp
  have h2: "lower (group1 ?m) \<in> EXCLUDED" by (simp add: v1 EXCLUDED_def)
  from void_excluded_emitted_unchanged [of "''<PRE> x </PRE>y''" ?m] h1 h2
  have "repl ?m = group0 ?m \<and> transform ''<PRE> x </PRE>y'' = group0 ?m @ transform (after ?m)"
    by blast
  with h1 h2 show ?thesis by simp
qed

text \<open>
  C5. The scan takes the leftmost match: where no earlier position matches, the text
  before the match is copied unchanged, the match is replaced, and the scan goes on
  after the end of the match, so that matches never overlap. The captured inner text of
  a match contains no \<open><\<close>; hence the outer \<open>div\<close> of the example is no match and is
  copied, and the inner \<open>span\<close> is matched and rewritten.
\<close>

theorem scan_leftmost_nonoverlapping:
  "((\<forall>n<k. pattern_at (drop n s) = None) \<and> pattern_at (drop k s) = Some m
      \<longrightarrow> transform s = take k s @ repl m @ transform (after m)
          \<and> s = take k s @ group0 m @ after m
          \<and> CHR ''<'' \<notin> set (group3 m))
   \<and> pattern_at ''<div><span>x</span></div>'' = None
   \<and> transform ''<div><span>x</span></div>'' = ''<div><span>\<newline>  x\<newline></span></div>''"
proof -
  have "transform s = take k s @ repl m @ transform (after m)
          \<and> s = take k s @ group0 m @ after m \<and> CHR ''<'' \<notin> set (group3 m)"
    if a: "\<forall>n<k. pattern_at (drop n s) = None" and b: "pattern_at (drop k s) = Some m"
  proof -
    have "drop k s \<noteq> []"
    proof
      assume "drop k s = []"
      then have "pattern_at (drop k s) = None"
        by (simp add: pattern_at_None_iff span_at_def)
      with b show False by simp
    qed
    then have "k \<le> length s" by simp
    from scan_gap [OF a this] have "pattern_sub s = take k s @ pattern_sub (drop k s)" .
    with pattern_sub_match [OF b]
    have 1: "transform s = take k s @ repl m @ transform (after m)"
      by (simp add: transform_def)
    from match_text [OF b] have "drop k s = group0 m @ after m" .
    then have 2: "s = take k s @ group0 m @ after m"
      by (metis append_take_drop_id)
    from 1 2 match_shape(3) [OF b] show ?thesis by simp
  qed
  moreover have "pattern_at ''<div><span>x</span></div>'' = None" by code_simp
  moreover have "transform ''<div><span>x</span></div>''
      = ''<div><span>\<newline>  x\<newline></span></div>''" by code_simp
  ultimately show ?thesis by blast
qed

theorem scan_leftmost_nonoverlapping_witness:
  "pattern_at (drop 0 ''<div><span>x</span></div>'') = None
   \<and> pattern_at (drop 1 ''<div><span>x</span></div>'') = None
   \<and> pattern_at (drop 2 ''<div><span>x</span></div>'') = None
   \<and> pattern_at (drop 3 ''<div><span>x</span></div>'') = None
   \<and> pattern_at (drop 4 ''<div><span>x</span></div>'') = None
   \<and> pattern_at (drop 5 ''<div><span>x</span></div>'')
       = Some \<lparr>group0 = ''<span>x</span>'', group1 = ''span'', group2 = [], group3 = ''x'',
               after = ''</div>''\<rparr>
   \<and> transform ''<div><span>x</span></div>''
       = ''<div>'' @ repl \<lparr>group0 = ''<span>x</span>'', group1 = ''span'', group2 = [],
                           group3 = ''x'', after = ''</div>''\<rparr>
         @ transform ''</div>''"
proof -
  let ?s = "''<div><span>x</span></div>''"
  let ?m = "\<lparr>group0 = ''<span>x</span>'', group1 = ''span'', group2 = [], group3 = ''x'',
               after = ''</div>''\<rparr>"
  have 0: "pattern_at (drop 0 ?s) = None" by code_simp
  have 1: "pattern_at (drop 1 ?s) = None" by code_simp
  have 2: "pattern_at (drop 2 ?s) = None" by code_simp
  have 3: "pattern_at (drop 3 ?s) = None" by code_simp
  have 4: "pattern_at (drop 4 ?s) = None" by code_simp
  have 5: "pattern_at (drop 5 ?s) = Some ?m" by code_simp
  have "\<forall>n<5. pattern_at (drop n ?s) = None"
  proof (intro allI impI)
    fix n :: nat
    assume "n < 5"
    then have "n = 0 \<or> n = 1 \<or> n = 2 \<or> n = 3 \<or> n = 4" by arith
    with 0 1 2 3 4 show "pattern_at (drop n ?s) = None" by (elim disjE) (simp_all only:)
  qed
  with 5 scan_leftmost_nonoverlapping [of 5 ?s ?m]
  have "transform ?s = take 5 ?s @ repl ?m @ transform (after ?m)" by blast
  then have "transform ?s = ''<div>'' @ repl ?m @ transform ''</div>''" by simp
  with 0 1 2 3 4 5 show ?thesis by (simp only:)
qed

text \<open>
  C6. A matched span whose inner text is empty after collapsing and stripping, that is,
  whose inner text is whitespace only, is emitted exactly as it was matched.
\<close>

theorem blank_inner_emitted_unchanged:
  "(pattern_at s = Some m \<and> strip (collapse (group3 m)) = []
      \<longrightarrow> repl m = group0 m \<and> s = group0 m @ after m
          \<and> transform s = group0 m @ transform (after m))
   \<and> (strip (collapse x) = [] \<longleftrightarrow> (\<forall>c\<in>set x. is_space c))
   \<and> transform ''<p>   </p>'' = ''<p>   </p>''"
proof -
  have "repl m = group0 m \<and> s = group0 m @ after m
          \<and> transform s = group0 m @ transform (after m)"
    if a: "pattern_at s = Some m" and b: "strip (collapse (group3 m)) = []"
  proof -
    from b have "repl m = group0 m" by (simp add: repl_unfold)
    with transform_match [OF a] match_text [OF a] show ?thesis by simp
  qed
  moreover have "transform ''<p>   </p>'' = ''<p>   </p>''" by code_simp
  ultimately show ?thesis using norm_text_empty_iff [of x] by blast
qed

theorem blank_inner_emitted_unchanged_witness:
  "pattern_at ''<p>   </p>''
     = Some \<lparr>group0 = ''<p>   </p>'', group1 = ''p'', group2 = [], group3 = '' '', after = []\<rparr>
   \<and> strip (collapse '' '') = []
   \<and> repl \<lparr>group0 = ''<p>   </p>'', group1 = ''p'', group2 = [], group3 = '' '', after = []\<rparr>
       = ''<p>   </p>''"
proof -
  let ?m = "\<lparr>group0 = ''<p>   </p>'', group1 = ''p'', group2 = [], group3 = '' '', after = []\<rparr>"
  have h1: "pattern_at ''<p>   </p>'' = Some ?m" by code_simp
  have v: "strip (collapse '' '') = []" by code_simp
  then have h2: "strip (collapse (group3 ?m)) = []" by (simp del: collapse.simps)
  from blank_inner_emitted_unchanged [of "''<p>   </p>''" ?m] h1 h2
  have "repl ?m = group0 ?m" by blast
  with h1 v show ?thesis by (simp del: collapse.simps)
qed

text \<open>
  C7. The name in the close tag of a match is the name of the open tag, character for
  character. A text whose close tag spells the same name in another casing is no match,
  and the document \<open><P>x</p>\<close>, which matches at no position, is returned unchanged.
\<close>

theorem close_tag_case_sensitive:
  "(pattern_at s = Some m
      \<longrightarrow> (\<exists>ws1 ws2. (\<forall>c\<in>set ws1. is_space c) \<and> (\<forall>c\<in>set ws2. is_space c)
            \<and> s = ''<'' @ group1 m @ group2 m @ ''>'' @ ws1 @ group3 m @ ws2
                   @ ''</'' @ group1 m @ ''>'' @ after m))
   \<and> (lower t1 = lower t2 \<and> t1 \<noteq> t2 \<and> CHR ''>'' \<notin> set t1 \<and> CHR ''>'' \<notin> set t2
        \<and> CHR ''<'' \<notin> set body
      \<longrightarrow> pattern_at (''<'' @ t1 @ ''>'' @ body @ ''</'' @ t2 @ ''>'' @ r) = None)
   \<and> list_all (\<lambda>n. pattern_at (drop n ''<P>x</p>'') = None) [0..<9]
   \<and> transform ''<P>x</p>'' = ''<P>x</p>''"
proof (intro conjI impI)
  assume "pattern_at s = Some m"
  then show "\<exists>ws1 ws2. (\<forall>c\<in>set ws1. is_space c) \<and> (\<forall>c\<in>set ws2. is_space c)
            \<and> s = ''<'' @ group1 m @ group2 m @ ''>'' @ ws1 @ group3 m @ ws2
                   @ ''</'' @ group1 m @ ''>'' @ after m"
    by (rule match_shape(1))
next
  assume a: "lower t1 = lower t2 \<and> t1 \<noteq> t2 \<and> CHR ''>'' \<notin> set t1 \<and> CHR ''>'' \<notin> set t2
        \<and> CHR ''<'' \<notin> set body"
  then have "lower t1 = lower t2" "t1 \<noteq> t2" "CHR ''>'' \<notin> set t1" "CHR ''>'' \<notin> set t2"
    "CHR ''<'' \<notin> set body" by simp_all
  then show "pattern_at (''<'' @ t1 @ ''>'' @ body @ ''</'' @ t2 @ ''>'' @ r) = None"
    by (rule case_mismatch_no_match)
next
  show "list_all (\<lambda>n. pattern_at (drop n ''<P>x</p>'') = None) [0..<9]" by code_simp
next
  show "transform ''<P>x</p>'' = ''<P>x</p>''" by code_simp
qed

theorem close_tag_case_sensitive_witness:
  "lower ''P'' = lower ''p'' \<and> ''P'' \<noteq> ''p'' \<and> CHR ''>'' \<notin> set ''P'' \<and> CHR ''>'' \<notin> set ''p''
   \<and> CHR ''<'' \<notin> set ''x''
   \<and> pattern_at (''<'' @ ''P'' @ ''>'' @ ''x'' @ ''</'' @ ''p'' @ ''>'' @ []) = None
   \<and> pattern_at ''<P>x</P>''
       = Some \<lparr>group0 = ''<P>x</P>'', group1 = ''P'', group2 = [], group3 = ''x'', after = []\<rparr>"
proof -
  have h1: "lower ''P'' = lower ''p''" by code_simp
  have h2: "''P'' \<noteq> ''p''" "CHR ''>'' \<notin> set ''P''" "CHR ''>'' \<notin> set ''p''"
    "CHR ''<'' \<notin> set ''x''" by simp_all
  have h3: "pattern_at ''<P>x</P>''
       = Some \<lparr>group0 = ''<P>x</P>'', group1 = ''P'', group2 = [], group3 = ''x'', after = []\<rparr>"
    by code_simp
  from close_tag_case_sensitive [of s m "''P''" "''p''" "''x''" "[]"]
  have "lower ''P'' = lower ''p'' \<and> ''P'' \<noteq> ''p'' \<and> CHR ''>'' \<notin> set ''P''
        \<and> CHR ''>'' \<notin> set ''p'' \<and> CHR ''<'' \<notin> set ''x''
      \<longrightarrow> pattern_at (''<'' @ ''P'' @ ''>'' @ ''x'' @ ''</'' @ ''p'' @ ''>'' @ []) = None"
    by (elim conjE)
  with h1 h2 have "pattern_at (''<'' @ ''P'' @ ''>'' @ ''x'' @ ''</'' @ ''p'' @ ''>'' @ []) = None"
    by (elim impE) (intro conjI)
  with h1 h2 h3 show ?thesis by (intro conjI)
qed





text \<open>
  C10. The captured attribute text never contains \<open>>\<close>: the open tag of a match ends at
  the first \<open>>\<close> after the tag name. An attribute value that contains \<open>>\<close> is
  therefore cut there, and its rest is taken as inner text.
\<close>

theorem attrs_end_at_first_gt:
  "(pattern_at s = Some m
      \<longrightarrow> CHR ''>'' \<notin> set (group2 m)
          \<and> (\<exists>ws1 ws2. (\<forall>c\<in>set ws1. is_space c) \<and> (\<forall>c\<in>set ws2. is_space c)
                \<and> s = ''<'' @ group1 m @ group2 m @ ''>'' @ ws1 @ group3 m @ ws2
                       @ ''</'' @ group1 m @ ''>'' @ after m))
   \<and> pattern_at ''<a title=\"a>b\">x</a>''
       = Some \<lparr>group0 = ''<a title=\"a>b\">x</a>'', group1 = ''a'', group2 = '' title=\"a'',
               group3 = ''b\">x'', after = []\<rparr>
   \<and> transform ''<a title=\"a>b\">x</a>'' = ''<a title=\"a>\<newline>  b\">x\<newline></a>''"
proof (intro conjI impI)
  assume a: "pattern_at s = Some m"
  then show "CHR ''>'' \<notin> set (group2 m)" by (rule match_shape(2))
  from a show "\<exists>ws1 ws2. (\<forall>c\<in>set ws1. is_space c) \<and> (\<forall>c\<in>set ws2. is_space c)
                \<and> s = ''<'' @ group1 m @ group2 m @ ''>'' @ ws1 @ group3 m @ ws2
                       @ ''</'' @ group1 m @ ''>'' @ after m"
    by (rule match_shape(1))
next
  show "pattern_at ''<a title=\"a>b\">x</a>''
       = Some \<lparr>group0 = ''<a title=\"a>b\">x</a>'', group1 = ''a'', group2 = '' title=\"a'',
               group3 = ''b\">x'', after = []\<rparr>" by code_simp
next
  show "transform ''<a title=\"a>b\">x</a>'' = ''<a title=\"a>\<newline>  b\">x\<newline></a>''"
    by code_simp
qed

theorem attrs_end_at_first_gt_witness:
  "pattern_at ''<a b>c>d</a>''
     = Some \<lparr>group0 = ''<a b>c>d</a>'', group1 = ''a'', group2 = '' b'', group3 = ''c>d'',
             after = []\<rparr>
   \<and> CHR ''>'' \<notin> set '' b''"
proof -
  let ?m = "\<lparr>group0 = ''<a b>c>d</a>'', group1 = ''a'', group2 = '' b'', group3 = ''c>d'',
             after = []\<rparr>"
  have h: "pattern_at ''<a b>c>d</a>'' = Some ?m" by code_simp
  from attrs_end_at_first_gt [of "''<a b>c>d</a>''" ?m]
  have "pattern_at ''<a b>c>d</a>'' = Some ?m \<longrightarrow> CHR ''>'' \<notin> set (group2 ?m)
          \<and> (\<exists>ws1 ws2. (\<forall>c\<in>set ws1. is_space c) \<and> (\<forall>c\<in>set ws2. is_space c)
                \<and> ''<a b>c>d</a>'' = ''<'' @ group1 ?m @ group2 ?m @ ''>'' @ ws1 @ group3 ?m @ ws2
                       @ ''</'' @ group1 ?m @ ''>'' @ after ?m)"
    by (rule conjunct1)
  with h have "CHR ''>'' \<notin> set (group2 ?m)" by (elim impE conjE)
  with h show ?thesis by simp
qed

end
